theory Spec2Isabelle
  imports Main "HOL-Library.Word" "HOL-Library.Multiset"
begin

unbundle bit_operations_syntax

section \<open>The video recorder (beta125tryforfinal3.cpp)\<close>

subsection \<open>Integer arithmetic of the source\<close>

text \<open>
  C++ integer division truncates towards zero, \<open>std::chrono::duration_cast\<close> to a
  coarser period does the same, and the initialisation of an \<open>int\<close> from a 64-bit count
  keeps the low 32 bits (two's complement). Time points of
  \<open>high_resolution_clock\<close> are counts of nanoseconds; they and the 64-bit frame counter
  are unbounded integers here.
\<close>

definition cdiv :: "int \<Rightarrow> int \<Rightarrow> int" where
  "cdiv a b = sgn a * sgn b * (\<bar>a\<bar> div \<bar>b\<bar>)"

definition to_int32 :: "int \<Rightarrow> int" where
  "to_int32 x = signed_take_bit 31 x"

definition ms_to_ns :: "int \<Rightarrow> int" where
  "ms_to_ns m = m * 1000000"

definition ns_to_ms :: "int \<Rightarrow> int" where
  "ns_to_ms t = cdiv t 1000000"

definition targetFPS :: int where
  "targetFPS = 30"

text \<open>\<open>const auto frameInterval = std::chrono::milliseconds(1000 / targetFPS)\<close>: a count
  of milliseconds.\<close>

definition frameInterval_of :: "int \<Rightarrow> int" where
  "frameInterval_of fps = cdiv 1000 fps"

definition frameInterval :: int where
  "frameInterval = frameInterval_of targetFPS"

subsection \<open>Frames, the queue and the pool\<close>

text \<open>An \<open>AVFrame*\<close> is an address (a natural number); the frames themselves live in a
  store from addresses to \<open>AVFrame\<close> values. \<open>av_data\<close> identifies the data buffers that
  \<open>av_frame_get_buffer\<close> allocated for the frame.\<close>

record AVFrame =
  av_format :: int
  av_width :: int
  av_height :: int
  av_data :: nat
  av_pts :: int

record FrameItem =
  frame :: nat
  pts :: int

definition AV_NOPTS_VALUE :: int where
  "AV_NOPTS_VALUE = - (2 ^ 63)"

text \<open>\<open>FrameQueue::push\<close>: append to \<open>q\<close> (the \<open>notify_one\<close> is in the step function
  below, where the consumer's state is).\<close>

definition push :: "FrameItem \<Rightarrow> FrameItem list \<Rightarrow> FrameItem list" where
  "push item qu = qu @ [item]"

text \<open>\<open>FrameQueue::pop\<close>: with an empty queue and \<open>stopRecording\<close> false the caller
  waits on the condition variable; with an empty queue otherwise it returns \<open>false\<close>;
  otherwise it returns \<open>true\<close> and the front item, which it removes.\<close>

datatype pop_result = Wait | ReturnFalse | ReturnTrue FrameItem

definition pop :: "bool \<Rightarrow> FrameItem list \<Rightarrow> pop_result \<times> FrameItem list" where
  "pop stop qu =
     (case qu of
        [] \<Rightarrow> if \<not> stop then (Wait, qu) else (ReturnFalse, qu)
      | item # rest \<Rightarrow> (ReturnTrue item, rest))"

definition empty_q :: "FrameItem list \<Rightarrow> bool" where
  "empty_q qu = (qu = [])"

text \<open>The \<open>FramePool\<close> constructor: \<open>n\<close> frames (the parameter \<open>size\<close>), at the
  addresses \<open>0, 1, ...\<close>, each with its own buffer, pushed on \<open>freeFrames\<close> in that
  order.\<close>

definition new_frame :: "int \<Rightarrow> int \<Rightarrow> int \<Rightarrow> nat \<Rightarrow> AVFrame" where
  "new_frame w h pix_fmt i =
     \<lparr>av_format = pix_fmt, av_width = w, av_height = h, av_data = i, av_pts = AV_NOPTS_VALUE\<rparr>"

definition FramePool_freeFrames :: "int \<Rightarrow> nat list" where
  "FramePool_freeFrames n = [0..<nat n]"

text \<open>\<open>FramePool::acquire\<close>: \<open>nullptr\<close> is \<open>None\<close>.\<close>

definition acquire :: "nat list \<Rightarrow> nat option \<times> nat list" where
  "acquire free = (case free of [] \<Rightarrow> (None, free) | f # rest \<Rightarrow> (Some f, rest))"

text \<open>\<open>FramePool::release\<close>: \<open>f->pts = 0\<close>, then \<open>freeFrames.push(f)\<close>.\<close>

definition release :: "nat \<Rightarrow> (nat \<Rightarrow> AVFrame) \<times> nat list \<Rightarrow> (nat \<Rightarrow> AVFrame) \<times> nat list" where
  "release f p = ((fst p)(f := (fst p f)\<lparr>av_pts := 0\<rparr>), snd p @ [f])"

subsection \<open>The encoder and the container (external)\<close>

text \<open>
  Modelled from the spec: the encoder and muxer are external (libavcodec, libavformat).
  The spec gives them as "accept a frame, produce zero or more packets; flush buffered
  packets; write packet to container", with an internal lookahead that an explicit flush
  drains. The model is the send/receive interface the source calls: an encoder with a
  lookahead of \<open>delay\<close> frames holds the frames it was sent in \<open>pending\<close> and turns the
  oldest into a packet once more than \<open>delay\<close> are held; sending the null frame
  (\<open>None\<close>) enters drain mode and turns every held frame into a packet;
  \<open>avcodec_receive_packet\<close> hands out the next finished packet, or nothing. A packet is
  identified by the pts of its frame.
\<close>

record encoder =
  delay :: nat
  pending :: "int list"
  ready :: "int list"
  draining :: bool

text \<open>Modelled from the spec: \<open>encode(frame)\<close>, and with the null frame the start of
  \<open>flush()\<close>. The libavcodec function is not part of the repository.\<close>

definition avcodec_send_frame :: "int option \<Rightarrow> encoder \<Rightarrow> encoder" where
  "avcodec_send_frame fr e =
     (case fr of
        None \<Rightarrow> e\<lparr>pending := [], ready := ready e @ pending e, draining := True\<rparr>
      | Some p \<Rightarrow>
          (let held = pending e @ [p]
           in if length held > delay e
              then e\<lparr>pending := tl held, ready := ready e @ [hd held]\<rparr>
              else e\<lparr>pending := held\<rparr>))"

text \<open>Modelled from the spec: the next packet of the "sequence of Packet (may be
  empty)" that \<open>encode\<close> and \<open>flush\<close> produce. The libavcodec function is not part of
  the repository.\<close>

definition avcodec_receive_packet :: "encoder \<Rightarrow> (int \<times> encoder) option" where
  "avcodec_receive_packet e =
     (case ready e of [] \<Rightarrow> None | p # rest \<Rightarrow> Some (p, e\<lparr>ready := rest\<rparr>))"

text \<open>Modelled from the spec: \<open>writePacket(packet)\<close>, the libavformat function
  \<open>av_interleaved_write_frame\<close>, which is not part of the repository. The packet reaches
  the container when the write succeeds (\<open>ok\<close>); the source discards the return value.\<close>

definition av_interleaved_write_frame :: "bool \<Rightarrow> int \<Rightarrow> int list \<Rightarrow> int list" where
  "av_interleaved_write_frame ok pkt out = (if ok then out @ [pkt] else out)"

subsection \<open>The two threads as a transition system\<close>

text \<open>
  The producer is the capture loop of \<open>main\<close>, the consumer the \<open>encoderThread\<close> lambda.
  Each thread has a program counter; a step is one critical section together with the
  thread-local code around it. What the environment decides comes with the event: the
  clock reading, whether \<open>AcquireNextFrame\<close> returned a frame, the value of \<open>scaled\<close>,
  whether \<open>avcodec_send_frame\<close> and \<open>av_interleaved_write_frame\<close> succeeded.
\<close>

datatype producer_pc =
    PTop            \<comment> \<open>at \<open>while (!stopRecording)\<close>\<close>
  | PHold nat       \<comment> \<open>after \<open>framePool.acquire()\<close> returned this frame\<close>
  | PDone           \<comment> \<open>left the capture loop\<close>

datatype consumer_pc =
    CTop            \<comment> \<open>at \<open>while (!stopRecording || !frameQueue.empty())\<close>\<close>
  | CPop            \<comment> \<open>in \<open>pop\<close>, holding the lock, about to test the wait condition\<close>
  | CWait           \<comment> \<open>in \<open>pop\<close>, blocked in \<open>cv.wait\<close>\<close>
  | CSend FrameItem \<comment> \<open>\<open>pop\<close> returned this item\<close>
  | CRecv FrameItem \<comment> \<open>in the inner \<open>avcodec_receive_packet\<close> loop\<close>
  | CFlush          \<comment> \<open>in the loop under \<open>// Flush encoder\<close>\<close>
  | CDone           \<comment> \<open>the thread function returned\<close>

record sys =
  stopRecording :: bool
  q :: "FrameItem list"
  freeFrames :: "nat list"
  frames :: "nat \<Rightarrow> AVFrame"
  frameCounter :: int
  nextFrameTime :: int
  prod :: producer_pc
  cons :: consumer_pc
  enc :: encoder
  outCtx :: "int list"
  trailer :: bool
  cerr :: "string list"
  pushed :: "FrameItem list"   \<comment> \<open>history: every item given to \<open>push\<close>, in order\<close>
  popped :: "FrameItem list"   \<comment> \<open>history: every item \<open>pop\<close> returned, in order\<close>
  sent :: "int list"           \<comment> \<open>history: the pts of every frame the encoder accepted, in order\<close>

datatype event =
    Signal              \<comment> \<open>SIGINT: \<open>signalHandler\<close>\<close>
  | P_begin int bool    \<comment> \<open>\<open>now\<close>; \<open>AcquireNextFrame(...) == S_OK\<close>\<close>
  | P_finish int        \<comment> \<open>the value of \<open>scaled\<close>\<close>
  | C_test              \<comment> \<open>the consumer evaluates its loop condition\<close>
  | C_pop               \<comment> \<open>the consumer, inside \<open>pop\<close>, tests the wait condition\<close>
  | Spurious            \<comment> \<open>a spurious wake-up of \<open>cv.wait\<close>\<close>
  | C_send bool         \<comment> \<open>\<open>avcodec_send_frame(...) >= 0\<close>\<close>
  | C_recv bool         \<comment> \<open>whether a write in the inner loop succeeds\<close>
  | C_flush bool        \<comment> \<open>whether a write in the flush loop succeeds\<close>
  | Join                \<comment> \<open>\<open>encoderThread.join()\<close> returns; \<open>av_write_trailer\<close>\<close>

text \<open>Lines 252 to 261: the pacing at the head of an iteration. \<open>skipCount + 1\<close> is
  computed in \<open>int\<close>, where an overflow is undefined; the properties below are stated for
  the runs in which it fits.\<close>

definition pace :: "int \<Rightarrow> sys \<Rightarrow> sys" where
  "pace now s =
     (if now > nextFrameTime s + ms_to_ns frameInterval
      then let skipCount = to_int32 (cdiv (ns_to_ms (now - nextFrameTime s)) frameInterval)
           in s\<lparr>frameCounter := frameCounter s + skipCount,
                nextFrameTime := nextFrameTime s + ms_to_ns (frameInterval * (skipCount + 1))\<rparr>
      else s\<lparr>nextFrameTime := nextFrameTime s + ms_to_ns frameInterval\<rparr>)"

text \<open>\<open>cv.notify_one()\<close>: a consumer blocked in \<open>cv.wait\<close> goes back to testing its wait
  condition; with nobody waiting the notification is lost.\<close>

definition notify_one :: "consumer_pc \<Rightarrow> consumer_pc" where
  "notify_one c = (if c = CWait then CPop else c)"

definition pool_release :: "nat \<Rightarrow> sys \<Rightarrow> sys" where
  "pool_release f s =
     (let p = release f (frames s, freeFrames s) in s\<lparr>frames := fst p, freeFrames := snd p\<rparr>)"

text \<open>The receive-and-write loop body shared by lines 229 to 232 and 238 to 241:
  \<open>None\<close> when \<open>avcodec_receive_packet\<close> returned no packet.\<close>

definition receive_and_write :: "bool \<Rightarrow> sys \<Rightarrow> sys option" where
  "receive_and_write wr s =
     (case avcodec_receive_packet (enc s) of
        None \<Rightarrow> None
      | Some (pkt, e) \<Rightarrow> Some (s\<lparr>enc := e, outCtx := av_interleaved_write_frame wr pkt (outCtx s)\<rparr>))"

fun step :: "event \<Rightarrow> sys \<Rightarrow> sys option" where
  "step Signal s = Some (s\<lparr>stopRecording := True\<rparr>)"
| "step (P_begin now got) s =
     (case prod s of
        PTop \<Rightarrow>
          if stopRecording s then Some (s\<lparr>prod := PDone\<rparr>)
          else let s1 = pace now s
               in if \<not> got then Some s1
                  else (case acquire (freeFrames s1) of
                          (None, _) \<Rightarrow> Some (s1\<lparr>cerr := cerr s1 @ [''Pool empty, skipping frame'']\<rparr>)
                        | (Some f, rest) \<Rightarrow> Some (s1\<lparr>freeFrames := rest, prod := PHold f\<rparr>))
      | _ \<Rightarrow> None)"
| "step (P_finish scaled) s =
     (case prod s of
        PHold f \<Rightarrow>
          if scaled \<le> 0
          then Some ((pool_release f s)\<lparr>cerr := cerr s @ [''sws_scale failed''], prod := PTop\<rparr>)
          else let item = \<lparr>frame = f, pts = frameCounter s\<rparr>
               in Some (s\<lparr>frames := (frames s)(f := (frames s f)\<lparr>av_pts := frameCounter s\<rparr>),
                          frameCounter := frameCounter s + 1,
                          q := push item (q s),
                          cons := notify_one (cons s),
                          pushed := pushed s @ [item],
                          prod := PTop\<rparr>)
      | _ \<Rightarrow> None)"
| "step C_test s =
     (case cons s of
        CTop \<Rightarrow> if \<not> stopRecording s \<or> \<not> empty_q (q s)
                then Some (s\<lparr>cons := CPop\<rparr>) else Some (s\<lparr>cons := CFlush\<rparr>)
      | _ \<Rightarrow> None)"
| "step C_pop s =
     (case cons s of
        CPop \<Rightarrow>
          (case pop (stopRecording s) (q s) of
             (Wait, _) \<Rightarrow> Some (s\<lparr>cons := CWait\<rparr>)
           | (ReturnFalse, _) \<Rightarrow> Some (s\<lparr>cons := CTop\<rparr>)
           | (ReturnTrue item, rest) \<Rightarrow>
               Some (s\<lparr>q := rest, cons := CSend item, popped := popped s @ [item]\<rparr>))
      | _ \<Rightarrow> None)"
| "step Spurious s =
     (case cons s of CWait \<Rightarrow> Some (s\<lparr>cons := CPop\<rparr>) | _ \<Rightarrow> None)"
| "step (C_send ok) s =
     (case cons s of
        CSend item \<Rightarrow>
          if \<not> ok
          then Some (s\<lparr>cerr := cerr s @ [''Error sending frame to encoder''], cons := CFlush\<rparr>)
          else Some (s\<lparr>enc := avcodec_send_frame (Some (av_pts (frames s (frame item)))) (enc s),
                       sent := sent s @ [av_pts (frames s (frame item))],
                       cons := CRecv item\<rparr>)
      | _ \<Rightarrow> None)"
| "step (C_recv wr) s =
     (case cons s of
        CRecv item \<Rightarrow>
          (case receive_and_write wr s of
             Some s' \<Rightarrow> Some s'
           | None \<Rightarrow> Some ((pool_release (frame item) s)\<lparr>cons := CTop\<rparr>))
      | _ \<Rightarrow> None)"
| "step (C_flush wr) s =
     (case cons s of
        CFlush \<Rightarrow>
          (case receive_and_write wr s of
             Some s' \<Rightarrow> Some s'
           | None \<Rightarrow> Some (s\<lparr>cons := CDone\<rparr>))
      | _ \<Rightarrow> None)"
| "step Join s =
     (if prod s = PDone \<and> cons s = CDone \<and> \<not> trailer s
      then Some (s\<lparr>trailer := True\<rparr>) else None)"

fun run :: "event list \<Rightarrow> sys \<Rightarrow> sys option" where
  "run [] s = Some s"
| "run (e # es) s = (case step e s of None \<Rightarrow> None | Some s' \<Rightarrow> run es s')"

text \<open>The state when both threads start: a pool of \<open>n\<close> frames (50 in \<open>main\<close>) of
  1280 by 720 pixels in the format \<open>AV_PIX_FMT_YUV420P\<close> (the value 0), the clock reading
  \<open>t0\<close> taken at line 248, an encoder with a lookahead of \<open>d\<close> frames.\<close>

definition init :: "int \<Rightarrow> int \<Rightarrow> nat \<Rightarrow> sys" where
  "init n t0 d =
     \<lparr>stopRecording = False, q = [], freeFrames = FramePool_freeFrames n,
      frames = new_frame 1280 720 0, frameCounter = 0, nextFrameTime = t0,
      prod = PTop, cons = CTop,
      enc = \<lparr>delay = d, pending = [], ready = [], draining = False\<rparr>,
      outCtx = [], trailer = False, cerr = [], pushed = [], popped = [], sent = []\<rparr>"

text \<open>One pass through the body of the capture loop with no step of the other thread
  in between: the head of the iteration, and its tail when a frame was acquired.
  \<open>frameCounter\<close> and \<open>nextFrameTime\<close> are locals of \<open>main\<close>, which only this loop
  writes.\<close>

definition iteration :: "int \<Rightarrow> bool \<Rightarrow> int \<Rightarrow> sys \<Rightarrow> sys option" where
  "iteration now got scaled s =
     (case step (P_begin now got) s of
        None \<Rightarrow> None
      | Some s1 \<Rightarrow> (case prod s1 of PHold f \<Rightarrow> step (P_finish scaled) s1 | _ \<Rightarrow> Some s1))"

text \<open>The frames in the hands of a thread: acquired and not yet pushed or released,
  or popped and not yet released.\<close>

definition held :: "sys \<Rightarrow> nat list" where
  "held s =
     (case prod s of PHold f \<Rightarrow> [f] | _ \<Rightarrow> []) @
     (case cons s of CSend item \<Rightarrow> [frame item] | CRecv item \<Rightarrow> [frame item] | _ \<Rightarrow> [])"

text \<open>The clock readings for which \<open>skipCount + 1\<close> fits an \<open>int\<close>: less than
  \<open>2 ^ 31 - 1\<close> frame intervals (more than two years) after the start \<open>t0\<close>.\<close>

fun clock_ok :: "int \<Rightarrow> event \<Rightarrow> bool" where
  "clock_ok t0 (P_begin now got) = (now - t0 < (2 ^ 31 - 1) * ms_to_ns frameInterval)"
| "clock_ok t0 e = True"

text \<open>Every frame the program can still reach: the free ones, the queued ones and
  the held ones.\<close>

definition owned :: "sys \<Rightarrow> nat list" where
  "owned s = freeFrames s @ map frame (q s) @ held s"

text \<open>The fields of every frame that the pool constructor set (format, size, data
  buffers) are as it set them.\<close>

definition frames_fixed :: "sys \<Rightarrow> bool" where
  "frames_fixed s \<longleftrightarrow>
     (\<forall>f. av_format (frames s f) = 0 \<and> av_width (frames s f) = 1280 \<and>
          av_height (frames s f) = 720 \<and> av_data (frames s f) = f)"

text \<open>The pts values pushed so far increase strictly and lie below the frame counter,
  and the deadline has not moved before the start.\<close>

definition pts_inv :: "int \<Rightarrow> sys \<Rightarrow> bool" where
  "pts_inv t0 s \<longleftrightarrow>
     sorted_wrt (<) (map pts (pushed s)) \<and>
     (\<forall>x \<in> set (pushed s). pts x < frameCounter s) \<and>
     t0 \<le> nextFrameTime s"

text \<open>A queued or just popped item carries the pts that its frame holds, and the
  encoder has been given the frames in the order of the pops: all of them, or all but
  the one the consumer is about to send or failed to send.\<close>

definition handoff_inv :: "sys \<Rightarrow> bool" where
  "handoff_inv s \<longleftrightarrow>
     (\<forall>item \<in> set (q s). av_pts (frames s (frame item)) = pts item) \<and>
     (case cons s of
        CSend item \<Rightarrow>
          av_pts (frames s (frame item)) = pts item \<and> map pts (popped s) = sent s @ [pts item]
      | CFlush \<Rightarrow> sent s = map pts (popped s) \<or> sent s = butlast (map pts (popped s))
      | CDone \<Rightarrow> sent s = map pts (popped s) \<or> sent s = butlast (map pts (popped s))
      | _ \<Rightarrow> sent s = map pts (popped s))"

section \<open>The audio recorder (audio09i2.cpp)\<close>

type_synonym byte = "8 word"

record WAVHeader =
  riff :: "byte list"
  chunkSize :: "32 word"
  wave :: "byte list"
  fmt :: "byte list"
  subChunk1Size :: "32 word"
  audioFormat :: "16 word"
  numChannels :: "16 word"
  sampleRate :: "32 word"
  byteRate :: "32 word"
  blockAlign :: "16 word"
  bitsPerSample :: "16 word"
  data :: "byte list"
  dataSize :: "32 word"

text \<open>
  The header that \<open>WriteWAVHeader\<close> fills in. The tags are the ASCII codes of
  \<open>RIFF\<close>, \<open>WAVE\<close>, \<open>fmt \<close> and \<open>data\<close>. \<open>byteRate\<close> is computed in \<open>uint32_t\<close>
  (the 16-bit operands are converted), so it wraps; \<open>blockAlign\<close> is computed in \<open>int\<close>
  and stored in 16 bits (\<open>main\<close> passes 16 bits per sample, so the product stays far
  below \<open>INT_MAX\<close>).
\<close>

definition make_header :: "16 word \<Rightarrow> 32 word \<Rightarrow> 16 word \<Rightarrow> 32 word \<Rightarrow> WAVHeader" where
  "make_header channels rate bits dsize =
     \<lparr>riff = [0x52, 0x49, 0x46, 0x46],
      chunkSize = 36 + dsize,
      wave = [0x57, 0x41, 0x56, 0x45],
      fmt = [0x66, 0x6D, 0x74, 0x20],
      subChunk1Size = 16,
      audioFormat = 1,
      numChannels = channels,
      sampleRate = rate,
      byteRate = (rate * ucast channels * ucast bits) div 8,
      blockAlign = word_of_int (cdiv (uint channels * uint bits) 8),
      bitsPerSample = bits,
      data = [0x64, 0x61, 0x74, 0x61],
      dataSize = dsize\<rparr>"

text \<open>The bytes of the struct as \<open>outFile.write(reinterpret_cast<char*>(&header),
  sizeof(header))\<close> emits them: every member is naturally aligned, so there is no
  padding, and the target (Windows on x86) is little-endian.\<close>

definition le16 :: "16 word \<Rightarrow> byte list" where
  "le16 w = [ucast w, ucast (drop_bit 8 w)]"

definition le32 :: "32 word \<Rightarrow> byte list" where
  "le32 w = [ucast w, ucast (drop_bit 8 w), ucast (drop_bit 16 w), ucast (drop_bit 24 w)]"

definition header_bytes :: "WAVHeader \<Rightarrow> byte list" where
  "header_bytes h =
     riff h @ le32 (chunkSize h) @ wave h @ fmt h @ le32 (subChunk1Size h) @
     le16 (audioFormat h) @ le16 (numChannels h) @ le32 (sampleRate h) @
     le32 (byteRate h) @ le16 (blockAlign h) @ le16 (bitsPerSample h) @
     data h @ le32 (dataSize h)"

text \<open>Reading a little-endian field back from the file.\<close>

definition rd16 :: "byte list \<Rightarrow> 16 word" where
  "rd16 bs = (case bs of [b0, b1] \<Rightarrow> ucast b0 OR push_bit 8 (ucast b1) | _ \<Rightarrow> 0)"

definition rd32 :: "byte list \<Rightarrow> 32 word" where
  "rd32 bs =
     (case bs of
        [b0, b1, b2, b3] \<Rightarrow>
          ucast b0 OR push_bit 8 (ucast b1) OR push_bit 16 (ucast b2) OR push_bit 24 (ucast b3)
      | _ \<Rightarrow> 0)"

definition field :: "nat \<Rightarrow> nat \<Rightarrow> byte list \<Rightarrow> byte list" where
  "field off len bs = take len (drop off bs)"

text \<open>The header fields of a file, at the offsets of the struct members.\<close>

definition chunkSize_field :: "byte list \<Rightarrow> 32 word" where
  "chunkSize_field file = rd32 (field 4 4 file)"

definition numChannels_field :: "byte list \<Rightarrow> 16 word" where
  "numChannels_field file = rd16 (field 22 2 file)"

definition sampleRate_field :: "byte list \<Rightarrow> 32 word" where
  "sampleRate_field file = rd32 (field 24 4 file)"

definition byteRate_field :: "byte list \<Rightarrow> 32 word" where
  "byteRate_field file = rd32 (field 28 4 file)"

definition blockAlign_field :: "byte list \<Rightarrow> 16 word" where
  "blockAlign_field file = rd16 (field 32 2 file)"

definition bitsPerSample_field :: "byte list \<Rightarrow> 16 word" where
  "bitsPerSample_field file = rd16 (field 34 2 file)"

definition dataSize_field :: "byte list \<Rightarrow> 32 word" where
  "dataSize_field file = rd32 (field 40 4 file)"

text \<open>The output stream: the bytes of the file and the put position. A write replaces
  the bytes from the put position on and extends the file where it runs past the end (the
  program never seeks past the end).\<close>

record ofstream =
  content :: "byte list"
  pos :: nat

definition ofstream_write :: "byte list \<Rightarrow> ofstream \<Rightarrow> ofstream" where
  "ofstream_write bs f =
     \<lparr>content = take (pos f) (content f) @ bs @ drop (pos f + length bs) (content f),
      pos = pos f + length bs\<rparr>"

definition seekp :: "nat \<Rightarrow> ofstream \<Rightarrow> ofstream" where
  "seekp n f = f\<lparr>pos := n\<rparr>"

definition WriteWAVHeader ::
  "ofstream \<Rightarrow> 16 word \<Rightarrow> 32 word \<Rightarrow> 16 word \<Rightarrow> 32 word \<Rightarrow> ofstream" where
  "WriteWAVHeader outFile channels rate bits dsize =
     ofstream_write (header_bytes (make_header channels rate bits dsize)) outFile"

text \<open>What \<open>main\<close> does to the file: the provisional header (line 117), and after the
  capture loop has filled \<open>audioData\<close>, the seek to the start, the final header and the
  payload (lines 161 to 163). \<open>nChannels\<close> and \<open>nSamplesPerSec\<close> come from the mix
  format; \<open>audioData.size()\<close> is cast to \<open>uint32_t\<close>.\<close>

definition wav_file :: "16 word \<Rightarrow> 32 word \<Rightarrow> byte list \<Rightarrow> ofstream" where
  "wav_file nChannels nSamplesPerSec audioData =
     (let f1 = WriteWAVHeader \<lparr>content = [], pos = 0\<rparr> nChannels nSamplesPerSec 16 0;
          f2 = seekp 0 f1;
          f3 = WriteWAVHeader f2 nChannels nSamplesPerSec 16 (of_nat (length audioData))
      in ofstream_write audioData f3)"

section \<open>Properties\<close>

subsection \<open>Arithmetic of the pacer\<close>

lemma frameInterval_eq: "frameInterval = 33"
  by (simp add: frameInterval_def frameInterval_of_def targetFPS_def cdiv_def)

lemma cdiv_nonneg: "0 \<le> a \<Longrightarrow> 0 < b \<Longrightarrow> cdiv a b = a div b"
  by (cases "a = 0") (simp_all add: cdiv_def)

lemma skip_quotient:
  assumes "0 \<le> t"
  shows "cdiv (ns_to_ms t) frameInterval = t div ms_to_ns frameInterval"
proof -
  have "0 \<le> t div 1000000" using assms by (simp add: pos_imp_zdiv_nonneg_iff)
  then have "cdiv (ns_to_ms t) frameInterval = t div 1000000 div 33"
    using assms by (simp add: ns_to_ms_def frameInterval_eq cdiv_nonneg)
  also have "\<dots> = t div (1000000 * 33)"
    by (simp add: zdiv_zmult2_eq)
  finally show ?thesis by (simp add: ms_to_ns_def frameInterval_eq)
qed

lemma to_int32_id: "0 \<le> x \<Longrightarrow> x < 2 ^ 31 \<Longrightarrow> to_int32 x = x"
  by (simp add: to_int32_def signed_take_bit_int_eq_self)

lemma pace_behind:
  assumes "now > nextFrameTime s + ms_to_ns frameInterval"
    and "(now - nextFrameTime s) div ms_to_ns frameInterval < 2 ^ 31"
  shows "pace now s =
    s\<lparr>frameCounter := frameCounter s + (now - nextFrameTime s) div ms_to_ns frameInterval,
      nextFrameTime := nextFrameTime s
         + ms_to_ns frameInterval * ((now - nextFrameTime s) div ms_to_ns frameInterval + 1)\<rparr>"
proof -
  let ?t = "now - nextFrameTime s"
  have pos: "0 \<le> ?t" using assms(1) by (simp add: ms_to_ns_def frameInterval_eq)
  have k0: "0 \<le> ?t div ms_to_ns frameInterval"
    using pos by (simp add: ms_to_ns_def frameInterval_eq pos_imp_zdiv_nonneg_iff)
  have "to_int32 (cdiv (ns_to_ms ?t) frameInterval) = ?t div ms_to_ns frameInterval"
    using skip_quotient [OF pos] to_int32_id [OF k0 assms(2)] by simp
  then show ?thesis
    using assms(1) by (simp add: pace_def Let_def ms_to_ns_def algebra_simps)
qed

lemma pace_on_time:
  "\<not> now > nextFrameTime s + ms_to_ns frameInterval \<Longrightarrow>
   pace now s = s\<lparr>nextFrameTime := nextFrameTime s + ms_to_ns frameInterval\<rparr>"
  by (simp add: pace_def)



lemma pace_fields [simp]:
  "freeFrames (pace now s) = freeFrames s" "q (pace now s) = q s"
  "prod (pace now s) = prod s" "cons (pace now s) = cons s" "frames (pace now s) = frames s"
  "pushed (pace now s) = pushed s" "popped (pace now s) = popped s"
  "stopRecording (pace now s) = stopRecording s" "enc (pace now s) = enc s"
  "sent (pace now s) = sent s"
  "outCtx (pace now s) = outCtx s" "trailer (pace now s) = trailer s" "cerr (pace now s) = cerr s"
  by (simp_all add: pace_def Let_def)

lemma owned_pace [simp]: "owned (pace now s) = owned s"
  by (simp add: owned_def held_def)

lemma step_owned_eq:
  assumes "step e s = Some s'" and "e \<noteq> C_send False"
  shows "mset (owned s') = mset (owned s)"
proof (cases e)
  case Signal
  with assms show ?thesis by (auto simp: owned_def held_def)
next
  case (P_begin now got)
  with assms show ?thesis
    by (cases "prod s"; cases "freeFrames s")
       (auto simp: owned_def held_def acquire_def Let_def split: if_splits)
next
  case (P_finish scaled)
  with assms show ?thesis
    by (cases "prod s")
       (auto simp: owned_def held_def pool_release_def release_def push_def Let_def notify_one_def
             split: if_splits)
next
  case C_test
  with assms show ?thesis
    by (cases "cons s") (auto simp: owned_def held_def split: if_splits)
next
  case C_pop
  with assms show ?thesis
    by (cases "cons s"; cases "q s")
       (auto simp: owned_def held_def pop_def split: if_splits)
next
  case Spurious
  with assms show ?thesis
    by (cases "cons s") (auto simp: owned_def held_def)
next
  case (C_send ok)
  with assms show ?thesis
    by (cases "cons s") (auto simp: owned_def held_def split: if_splits)
next
  case (C_recv wr)
  with assms show ?thesis
    by (cases "cons s")
       (auto simp: owned_def held_def receive_and_write_def pool_release_def release_def Let_def
             split: option.splits)
next
  case (C_flush wr)
  with assms show ?thesis
    by (cases "cons s")
       (auto simp: owned_def held_def receive_and_write_def split: option.splits)
next
  case Join
  with assms show ?thesis
    by (auto simp: owned_def held_def split: if_splits)
qed

lemma step_owned:
  assumes "step e s = Some s'"
  shows "mset (owned s') \<subseteq># mset (owned s)"
proof (cases "e = C_send False")
  case True
  with assms show ?thesis
    by (cases "cons s") (auto simp: owned_def held_def)
next
  case False
  with step_owned_eq [OF assms] show ?thesis by simp
qed

lemma run_invariant:
  assumes "\<And>e s s'. step e s = Some s' \<Longrightarrow> P s \<Longrightarrow> P s'"
  shows "run es s = Some s' \<Longrightarrow> P s \<Longrightarrow> P s'"
proof (induction es arbitrary: s)
  case Nil
  then show ?case by simp
next
  case (Cons e es)
  then show ?case using assms by (auto split: option.splits)
qed

lemma run_owned: "run es s = Some s' \<Longrightarrow> mset (owned s') \<subseteq># mset (owned s)"
proof (induction es arbitrary: s)
  case Nil
  then show ?case by simp
next
  case (Cons e es)
  then obtain s1 where 1: "step e s = Some s1" and 2: "run es s1 = Some s'"
    by (auto split: option.splits)
  from step_owned [OF 1] Cons.IH [OF 2] show ?case
    by (rule subset_mset.order_trans [rotated])
qed

lemma owned_init: "owned (init n t0 d) = [0..<nat n]"
  by (simp add: owned_def held_def init_def FramePool_freeFrames_def)

lemma distinct_submset:
  assumes "mset xs \<subseteq># mset ys" and "distinct ys"
  shows "distinct xs"
proof -
  have le1: "count (mset xs) a \<le> 1" for a
  proof -
    have "count (mset ys) a \<le> 1"
      using assms(2) by (simp add: distinct_count_atmost_1)
    with mset_subset_eq_count [OF assms(1), of a] show ?thesis by simp
  qed
  show ?thesis
  proof (rule ccontr)
    assume "\<not> distinct xs"
    then obtain us vs ws y where "xs = us @ [y] @ vs @ [y] @ ws"
      using not_distinct_decomp by blast
    then have "count (mset xs) y \<ge> 2" by simp
    with le1 [of y] show False by simp
  qed
qed

lemma reachable_owned:
  assumes "run es (init n t0 d) = Some s"
  shows "distinct (owned s)" and "set (owned s) \<subseteq> {0..<nat n}"
proof -
  have sub: "mset (owned s) \<subseteq># mset [0..<nat n]"
    using run_owned [OF assms] by (simp add: owned_init)
  show "distinct (owned s)"
    by (rule distinct_submset [OF sub]) simp
  show "set (owned s) \<subseteq> {0..<nat n}"
    using set_mset_mono [OF sub] by simp
qed

lemma step_frames_fixed:
  assumes "step e s = Some s'" and "frames_fixed s"
  shows "frames_fixed s'"
proof (cases e)
  case (P_begin now got)
  with assms show ?thesis
    by (cases "prod s"; cases "freeFrames s")
       (auto simp: frames_fixed_def acquire_def Let_def split: if_splits)
next
  case (P_finish scaled)
  with assms show ?thesis
    by (cases "prod s")
       (auto simp: frames_fixed_def pool_release_def release_def Let_def new_frame_def
             split: if_splits)
next
  case C_pop
  with assms show ?thesis
    by (cases "cons s"; cases "q s") (auto simp: frames_fixed_def pop_def split: if_splits)
next
  case (C_recv wr)
  with assms show ?thesis
    by (cases "cons s")
       (auto simp: frames_fixed_def receive_and_write_def pool_release_def release_def Let_def
             new_frame_def split: option.splits)
next
  case (C_flush wr)
  with assms show ?thesis
    by (cases "cons s")
       (auto simp: frames_fixed_def receive_and_write_def split: option.splits)
qed (use assms in \<open>auto simp: frames_fixed_def split: consumer_pc.splits if_splits\<close>)

lemma reachable_frames_fixed:
  assumes "run es (init n t0 d) = Some s"
  shows "frames_fixed s"
proof -
  have "frames_fixed (init n t0 d)"
    by (simp add: frames_fixed_def init_def new_frame_def)
  with assms show ?thesis
    by (rule run_invariant [where P = frames_fixed, rotated 1]) (rule step_frames_fixed)
qed


lemmas run_eval =
  init_def FramePool_freeFrames_def acquire_def pace_def Let_def frameInterval_eq ms_to_ns_def
  ns_to_ms_def cdiv_def to_int32_def push_def pop_def notify_one_def empty_q_def
  receive_and_write_def avcodec_receive_packet_def avcodec_send_frame_def
  av_interleaved_write_frame_def pool_release_def release_def held_def iteration_def

text \<open>
  C7: in every state the two threads can reach from a pool constructed with \<open>n\<close> frames,
  whatever \<open>acquire\<close> returns is one of the \<open>n\<close> frames of the constructor (and it
  reports exhaustion exactly on an empty free list), the frame the producer holds after
  \<open>acquire\<close> is one of them, the free list holds only those frames, each at most once,
  so it never has more than \<open>n\<close> entries, and every frame still has the format, size and
  data buffers it was constructed with. \<open>acquire\<close> on an empty free list returns
  \<open>nullptr\<close> at once and leaves the list as it is; \<open>release\<close> appends the same frame and
  changes nothing but its pts.
\<close>

theorem FramePool_lifetime:
  assumes "run es (init n t0 d) = Some s"
  shows "(case fst (acquire (freeFrames s)) of None \<Rightarrow> freeFrames s = [] | Some f \<Rightarrow> f < nat n) \<and>
         (\<forall>f. prod s = PHold f \<longrightarrow> f < nat n) \<and>
         set (freeFrames s) \<subseteq> {0..<nat n} \<and> distinct (freeFrames s) \<and>
         length (freeFrames s) \<le> nat n \<and>
         (\<forall>f. av_data (frames s f) = f \<and> av_width (frames s f) = 1280 \<and>
              av_height (frames s f) = 720 \<and> av_format (frames s f) = 0) \<and>
         acquire [] = (None, []) \<and>
         snd (release g (fr, free)) = free @ [g] \<and>
         fst (release g (fr, free)) g = (fr g)\<lparr>av_pts := 0\<rparr> \<and>
         (\<forall>h. h \<noteq> g \<longrightarrow> fst (release g (fr, free)) h = fr h)"
proof -
  note d = reachable_owned(1) [OF assms] and b = reachable_owned(2) [OF assms]
  have free_sub: "set (freeFrames s) \<subseteq> {0..<nat n}"
    using b by (simp add: owned_def)
  have free_dist: "distinct (freeFrames s)"
    using d by (simp add: owned_def)
  have "card (set (freeFrames s)) \<le> card {0..<nat n}"
    by (rule card_mono) (use free_sub in simp_all)
  then have len: "length (freeFrames s) \<le> nat n"
    using free_dist by (simp add: distinct_card)
  have acq: "case fst (acquire (freeFrames s)) of None \<Rightarrow> freeFrames s = [] | Some f \<Rightarrow> f < nat n"
    using free_sub by (cases "freeFrames s") (simp_all add: acquire_def)
  have hold: "\<forall>f. prod s = PHold f \<longrightarrow> f < nat n"
    using b by (auto simp: owned_def held_def)
  have fixed: "\<forall>f. av_data (frames s f) = f \<and> av_width (frames s f) = 1280 \<and>
              av_height (frames s f) = 720 \<and> av_format (frames s f) = 0"
    using reachable_frames_fixed [OF assms] by (simp add: frames_fixed_def)
  show ?thesis
    using acq hold free_sub free_dist len fixed by (simp add: acquire_def release_def)
qed



theorem FramePool_lifetime_witness:
  "run [P_begin 0 True, P_finish 1, C_test, C_pop, C_send True, C_recv True, C_recv True,
        P_begin 40000000 True] (init 2 0 0) \<noteq> None \<and>
   prod (the (run [P_begin 0 True, P_finish 1, C_test, C_pop, C_send True, C_recv True,
        C_recv True, P_begin 40000000 True] (init 2 0 0))) = PHold 1 \<and> (1::nat) < nat 2 \<and>
   length (freeFrames (the (run [P_begin 0 True, P_finish 1, C_test, C_pop, C_send True,
        C_recv True, C_recv True, P_begin 40000000 True] (init 2 0 0)))) \<le> nat 2"
proof -
  define s where "s = the (run [P_begin 0 True, P_finish 1, C_test, C_pop, C_send True,
        C_recv True, C_recv True, P_begin 40000000 True] (init 2 0 0))"
  have r: "run [P_begin 0 True, P_finish 1, C_test, C_pop, C_send True, C_recv True,
        C_recv True, P_begin 40000000 True] (init 2 0 0) = Some s"
    unfolding s_def by (simp add: run_eval upt_rec)
  have p: "prod s = PHold 1"
    unfolding s_def by (simp add: run_eval upt_rec)
  have "(\<forall>f. prod s = PHold f \<longrightarrow> f < nat 2) \<and> length (freeFrames s) \<le> nat 2"
    using FramePool_lifetime [OF r, of 0 undefined "[]"] by blast
  with p r show ?thesis
    unfolding s_def [symmetric] by simp
qed

subsection \<open>The queue is first-in first-out and pts values increase\<close>

lemma step_fifo:
  assumes "step e s = Some s'" and "pushed s = popped s @ q s"
  shows "pushed s' = popped s' @ q s'"
proof (cases e)
  case (P_begin now got)
  with assms show ?thesis
    by (cases "prod s"; cases "freeFrames s") (auto simp: acquire_def Let_def split: if_splits)
next
  case (P_finish scaled)
  with assms show ?thesis
    by (cases "prod s") (auto simp: pool_release_def push_def Let_def split: if_splits)
next
  case C_pop
  with assms show ?thesis
    by (cases "cons s"; cases "q s") (auto simp: pop_def split: if_splits)
next
  case (C_recv wr)
  with assms show ?thesis
    by (cases "cons s")
       (auto simp: receive_and_write_def pool_release_def Let_def split: option.splits)
next
  case (C_flush wr)
  with assms show ?thesis
    by (cases "cons s") (auto simp: receive_and_write_def split: option.splits)
qed (use assms in \<open>auto split: consumer_pc.splits if_splits\<close>)

lemma reachable_fifo:
  assumes "run es (init n t0 d) = Some s"
  shows "pushed s = popped s @ q s"
proof -
  have "pushed (init n t0 d) = popped (init n t0 d) @ q (init n t0 d)"
    by (simp add: init_def)
  with assms show ?thesis
    by (rule run_invariant [where P = "\<lambda>s. pushed s = popped s @ q s", rotated 1])
       (rule step_fifo)
qed

lemma pace_monotone:
  assumes "now - t0 < (2 ^ 31 - 1) * ms_to_ns frameInterval" and "t0 \<le> nextFrameTime s"
  shows "frameCounter s \<le> frameCounter (pace now s) \<and> t0 \<le> nextFrameTime (pace now s)"
proof (cases "now > nextFrameTime s + ms_to_ns frameInterval")
  case True
  let ?k = "(now - nextFrameTime s) div ms_to_ns frameInterval"
  have "now - nextFrameTime s < 2 ^ 31 * ms_to_ns frameInterval"
    using assms by (simp add: ms_to_ns_def frameInterval_eq)
  then have small: "?k < 2 ^ 31"
    by (simp add: ms_to_ns_def frameInterval_eq)
  have "0 \<le> now - nextFrameTime s"
    using True by (simp add: ms_to_ns_def frameInterval_eq)
  then have k0: "0 \<le> ?k"
    by (simp add: ms_to_ns_def frameInterval_eq pos_imp_zdiv_nonneg_iff)
  have "0 \<le> ms_to_ns frameInterval * (?k + 1)"
    using k0 by (simp add: ms_to_ns_def frameInterval_eq)
  with k0 assms(2) show ?thesis
    by (simp add: pace_behind [OF True small])
next
  case False
  with assms(2) show ?thesis
    by (simp add: pace_on_time ms_to_ns_def frameInterval_eq)
qed

lemma pts_inv_pace:
  assumes "now - t0 < (2 ^ 31 - 1) * ms_to_ns frameInterval" and "pts_inv t0 s"
  shows "pts_inv t0 (pace now s)"
proof -
  from assms(2) have "t0 \<le> nextFrameTime s" by (simp add: pts_inv_def)
  from pace_monotone [OF assms(1) this]
  have m: "frameCounter s \<le> frameCounter (pace now s)" "t0 \<le> nextFrameTime (pace now s)"
    by simp_all
  have "pts x < frameCounter (pace now s)" if "x \<in> set (pushed s)" for x
  proof -
    from assms(2) that have "pts x < frameCounter s" by (simp add: pts_inv_def)
    with m(1) show ?thesis by simp
  qed
  with assms(2) m(2) show ?thesis by (simp add: pts_inv_def)
qed

lemma pts_inv_cong:
  assumes "pts_inv t0 s" and "pushed s' = pushed s" and "frameCounter s' = frameCounter s"
    and "nextFrameTime s' = nextFrameTime s"
  shows "pts_inv t0 s'"
  using assms by (simp add: pts_inv_def)

lemma step_pts_inv:
  assumes "step e s = Some s'" and "clock_ok t0 e" and "pts_inv t0 s"
  shows "pts_inv t0 s'"
proof (cases e)
  case (P_begin now got)
  from assms(2,3) P_begin have p: "pts_inv t0 (pace now s)"
    by (simp add: pts_inv_pace)
  show ?thesis
  proof (cases "stopRecording s")
    case True
    with assms(1,3) P_begin show ?thesis
      by (cases "prod s") (auto elim: pts_inv_cong)
  next
    case False
    with assms(1) P_begin show ?thesis
      by (cases "prod s"; cases "freeFrames s")
         (auto simp: acquire_def Let_def split: if_splits intro: pts_inv_cong [OF p] p)
  qed
next
  case (P_finish scaled)
  with assms show ?thesis
    by (cases "prod s")
       (fastforce simp: pts_inv_def pool_release_def push_def Let_def sorted_wrt_append
             split: if_splits)+
next
  case C_pop
  with assms show ?thesis
    by (cases "cons s"; cases "q s") (auto simp: pts_inv_def pop_def split: if_splits)
next
  case (C_recv wr)
  with assms show ?thesis
    by (cases "cons s")
       (auto simp: pts_inv_def receive_and_write_def pool_release_def Let_def
             split: option.splits)
next
  case (C_flush wr)
  with assms show ?thesis
    by (cases "cons s") (auto simp: pts_inv_def receive_and_write_def split: option.splits)
qed (use assms in \<open>auto simp: pts_inv_def split: consumer_pc.splits if_splits\<close>)

lemma run_pts_inv:
  "run es s = Some s' \<Longrightarrow> \<forall>e \<in> set es. clock_ok t0 e \<Longrightarrow> pts_inv t0 s \<Longrightarrow> pts_inv t0 s'"
proof (induction es arbitrary: s)
  case Nil
  then show ?case by simp
next
  case (Cons e es)
  then obtain s1 where 1: "step e s = Some s1" and 2: "run es s1 = Some s'"
    by (auto split: option.splits)
  from Cons.prems have "clock_ok t0 e" and rest: "\<forall>e \<in> set es. clock_ok t0 e"
    by simp_all
  from step_pts_inv [OF 1 this(1) Cons.prems(3)] have "pts_inv t0 s1" .
  from Cons.IH [OF 2 rest this] show ?case .
qed

lemma sorted_wrt_less_nth:
  fixes xs :: "int list"
  assumes "sorted_wrt (<) xs" and "i < length xs" and "j < length xs" and "xs ! i < xs ! j"
  shows "i < j"
proof (rule ccontr)
  assume "\<not> i < j"
  then have "j = i \<or> j < i" by auto
  then show False
  proof
    assume "j = i" with assms(4) show False by simp
  next
    assume "j < i"
    from sorted_wrt_nth_less [OF assms(1) this assms(2)] assms(4) show False by simp
  qed
qed

lemma step_distinct_owned:
  assumes "step e s = Some s'" and "distinct (owned s)"
  shows "distinct (owned s')"
  by (rule distinct_submset [OF step_owned [OF assms(1)] assms(2)])

lemma producer_frame_apart:
  assumes "distinct (owned s)" and "prod s = PHold f"
  shows "\<forall>x \<in> set (q s). frame x \<noteq> f" and "cons s = CSend item \<Longrightarrow> frame item \<noteq> f"
proof -
  from assms have "f \<notin> frame ` set (q s)"
    by (auto simp: owned_def held_def)
  then show "\<forall>x \<in> set (q s). frame x \<noteq> f" by force
  show "frame item \<noteq> f" if "cons s = CSend item"
    using assms that by (auto simp: owned_def held_def)
qed

lemma consumer_frame_apart:
  assumes "distinct (owned s)" and "cons s = CRecv item"
  shows "\<forall>x \<in> set (q s). frame x \<noteq> frame item"
proof -
  from assms have out: "frame item \<notin> frame ` set (q s)"
    by (auto simp: owned_def held_def)
  show ?thesis
  proof
    fix x
    assume "x \<in> set (q s)"
    then have "frame x \<in> frame ` set (q s)" by (rule imageI)
    with out show "frame x \<noteq> frame item" by metis
  qed
qed

lemma step_handoff:
  assumes "step e s = Some s'" and "distinct (owned s)" and "handoff_inv s"
  shows "handoff_inv s'"
proof (cases e)
  case Signal
  with assms(1,3) show ?thesis
    by (cases "cons s") (auto simp: handoff_inv_def)
next
  case (P_begin now got)
  with assms(1,3) show ?thesis
    by (cases "prod s"; cases "freeFrames s"; cases "cons s")
       (auto simp: handoff_inv_def acquire_def Let_def split: if_splits)
next
  case (P_finish scaled)
  show ?thesis
  proof (cases "prod s")
    case (PHold f)
    note apart = producer_frame_apart [OF assms(2) PHold]
    from assms(1,3) P_finish PHold apart show ?thesis
      by (cases "cons s")
         (auto simp: handoff_inv_def pool_release_def release_def push_def Let_def
               notify_one_def split: if_splits)
  qed (use assms(1) P_finish in auto)
next
  case C_test
  with assms(1,3) show ?thesis
    by (cases "cons s") (auto simp: handoff_inv_def split: if_splits)
next
  case C_pop
  with assms(1,3) show ?thesis
    by (cases "cons s"; cases "q s") (auto simp: handoff_inv_def pop_def split: if_splits)
next
  case Spurious
  with assms(1,3) show ?thesis
    by (cases "cons s") (auto simp: handoff_inv_def)
next
  case (C_send ok)
  with assms(1,3) show ?thesis
    by (cases "cons s") (auto simp: handoff_inv_def split: if_splits)
next
  case (C_recv wr)
  show ?thesis
  proof (cases "cons s")
    case (CRecv item)
    note apart = consumer_frame_apart [OF assms(2) CRecv]
    from assms(1,3) C_recv CRecv apart show ?thesis
      by (auto simp: handoff_inv_def receive_and_write_def pool_release_def
               release_def Let_def split: option.splits)
  qed (use assms(1) C_recv in auto)
next
  case (C_flush wr)
  with assms(1,3) show ?thesis
    by (cases "cons s") (auto simp: handoff_inv_def receive_and_write_def split: option.splits)
next
  case Join
  with assms(1,3) show ?thesis
    by (cases "cons s") (auto simp: handoff_inv_def split: if_splits)
qed

lemma reachable_handoff:
  assumes "run es (init n t0 d) = Some s"
  shows "handoff_inv s"
proof -
  have "distinct (owned (init n t0 d)) \<and> handoff_inv (init n t0 d)"
    by (simp add: owned_init) (simp add: handoff_inv_def init_def)
  with assms have "distinct (owned s) \<and> handoff_inv s"
    by (rule run_invariant [where P = "\<lambda>s. distinct (owned s) \<and> handoff_inv s", rotated 1])
       (auto intro: step_distinct_owned step_handoff)
  then show ?thesis ..
qed

lemma handoff_prefix:
  assumes "handoff_inv s"
  shows "\<exists>rest. map pts (popped s) = sent s @ rest"
proof -
  have "xs = butlast xs @ drop (length xs - 1) xs" for xs :: "int list"
    by (cases xs rule: rev_cases) simp_all
  then have "ys = butlast xs \<Longrightarrow> \<exists>rest. xs = ys @ rest" for xs ys :: "int list"
    by blast
  with assms show ?thesis
    by (cases "cons s") (auto simp: handoff_inv_def)
qed

text \<open>
  C8 (as amended): in every reachable state the items popped so far, followed by the items still
  queued, are exactly the items pushed so far, in the order of the pushes: the queue is
  strictly first-in first-out. The consumer hands the popped frames to the encoder in
  that order, each with the pts of its item. When every clock reading of the producer is
  less than \<open>2 ^ 31 - 1\<close> frame intervals after the start, so that \<open>skipCount + 1\<close>
  fits an \<open>int\<close>, the pts values of the pushed items increase strictly,
  so do the pts values the encoder receives, and of two popped items the one with the
  smaller pts was popped first.
\<close>

theorem FrameQueue_fifo:
  assumes "run es (init n t0 d) = Some s"
  shows "pushed s = popped s @ q s \<and>
         (\<exists>rest. map pts (popped s) = sent s @ rest) \<and>
         ((\<forall>e \<in> set es. clock_ok t0 e) \<longrightarrow>
            sorted_wrt (<) (map pts (pushed s)) \<and>
            sorted_wrt (<) (sent s) \<and>
            (\<forall>i j. i < length (popped s) \<and> j < length (popped s) \<and>
                   pts (popped s ! i) < pts (popped s ! j) \<longrightarrow> i < j))"
proof (intro conjI impI)
  show fifo: "pushed s = popped s @ q s"
    by (rule reachable_fifo [OF assms])
  show pre: "\<exists>rest. map pts (popped s) = sent s @ rest"
    by (rule handoff_prefix [OF reachable_handoff [OF assms]])
  assume ok: "\<forall>e \<in> set es. clock_ok t0 e"
  have "pts_inv t0 (init n t0 d)"
    by (simp add: pts_inv_def init_def)
  from run_pts_inv [OF assms ok this]
  show sorted: "sorted_wrt (<) (map pts (pushed s))"
    by (simp add: pts_inv_def)
  then have sp: "sorted_wrt (<) (map pts (popped s))"
    by (simp add: fifo sorted_wrt_append)
  with pre show "sorted_wrt (<) (sent s)"
    by (auto simp: sorted_wrt_append)
  show "\<forall>i j. i < length (popped s) \<and> j < length (popped s) \<and>
                   pts (popped s ! i) < pts (popped s ! j) \<longrightarrow> i < j"
    using sorted_wrt_less_nth [OF sp] by simp
qed

theorem FrameQueue_fifo_witness:
  "run [P_begin 0 True, P_finish 1, P_begin 100000000 True, P_finish 1, C_test, C_pop,
        C_send True, C_recv True, C_recv True, C_test, C_pop, C_send True] (init 2 0 0) \<noteq> None \<and>
   clock_ok 0 (P_begin 0 True) \<and> clock_ok 0 (P_begin 100000000 True) \<and>
   popped (the (run [P_begin 0 True, P_finish 1, P_begin 100000000 True, P_finish 1, C_test,
        C_pop, C_send True, C_recv True, C_recv True, C_test, C_pop, C_send True]
        (init 2 0 0))) =
     [\<lparr>frame = 0, pts = 0\<rparr>, \<lparr>frame = 1, pts = 3\<rparr>] \<and>
   pushed (the (run [P_begin 0 True, P_finish 1, P_begin 100000000 True, P_finish 1, C_test,
        C_pop, C_send True, C_recv True, C_recv True, C_test, C_pop, C_send True]
        (init 2 0 0))) =
     [\<lparr>frame = 0, pts = 0\<rparr>, \<lparr>frame = 1, pts = 3\<rparr>] \<and>
   sent (the (run [P_begin 0 True, P_finish 1, P_begin 100000000 True, P_finish 1, C_test,
        C_pop, C_send True, C_recv True, C_recv True, C_test, C_pop, C_send True]
        (init 2 0 0))) = [0, 3] \<and>
   sorted_wrt (<) [0, 3 :: int] \<and> (0::nat) < 1"
proof -
  define es where "es = [P_begin 0 True, P_finish 1, P_begin 100000000 True, P_finish 1,
        C_test, C_pop, C_send True, C_recv True, C_recv True, C_test, C_pop, C_send True]"
  define s where "s = the (run es (init 2 0 0))"
  have r: "run es (init 2 0 0) = Some s"
    unfolding s_def es_def by (simp add: run_eval upt_rec)
  have ok: "\<forall>e \<in> set es. clock_ok 0 e"
    unfolding es_def by (simp add: frameInterval_eq ms_to_ns_def)
  have po: "popped s = [\<lparr>frame = 0, pts = 0\<rparr>, \<lparr>frame = 1, pts = 3\<rparr>]"
    and qe: "q s = []" and se: "sent s = [0, 3]"
    unfolding s_def es_def by (simp_all add: run_eval upt_rec)
  have "pushed s = popped s @ q s \<and> sorted_wrt (<) (map pts (pushed s)) \<and>
      sorted_wrt (<) (sent s)"
    using FrameQueue_fifo [OF r] ok by blast
  with po qe have "pushed s = [\<lparr>frame = 0, pts = 0\<rparr>, \<lparr>frame = 1, pts = 3\<rparr>]"
    by simp
  with r po se show ?thesis
    unfolding s_def [symmetric] es_def [symmetric]
    by (simp add: frameInterval_eq ms_to_ns_def)
qed

text \<open>
  C8, as stated, fails: the second iteration starts \<open>2 ^ 31\<close> frame intervals after its
  deadline, \<open>int skipCount\<close> narrows the quotient to \<open>- 2 ^ 31\<close>, and the second frame
  is pushed with a pts below that of the first; the consumer still sends the first frame
  first, the one with the larger pts.
\<close>

theorem pts_overflow_counterexample:
  "\<not> clock_ok 0 (P_begin 70866960417000000 True) \<and>
   map_option (map pts \<circ> pushed)
     (run [P_begin 0 True, P_finish 1, P_begin 70866960417000000 True, P_finish 1]
        (init 50 0 0)) = Some [0, - 2147483647] \<and>
   map_option (map pts \<circ> q)
     (run [P_begin 0 True, P_finish 1, P_begin 70866960417000000 True, P_finish 1]
        (init 50 0 0)) = Some [0, - 2147483647] \<and>
   map_option sent
     (run [P_begin 0 True, P_finish 1, P_begin 70866960417000000 True, P_finish 1,
           C_test, C_pop, C_send True, C_recv True, C_recv True,
           C_test, C_pop, C_send True] (init 50 0 0)) = Some [0, - 2147483647] \<and>
   (- 2147483647 :: int) < 0"
  by (simp add: run_eval upt_rec)

subsection \<open>The pacer\<close>

text \<open>
  C1 (as amended): in an iteration of the capture loop that starts later than the previous
  deadline plus one frame interval (with \<open>skipCount + 1\<close> fitting an \<open>int\<close>), the pacer
  computes \<open>skipCount = floor ((now - previousDeadline) / frameInterval)\<close>, adds
  \<open>skipCount\<close> to the frame counter and sets the next deadline to \<open>previousDeadline +
  frameInterval * (skipCount + 1)\<close>. The counter advances by one more exactly when the
  iteration pushes a frame (a frame was captured, the pool was not empty and the scaling
  succeeded); that frame carries the pts \<open>counter + skipCount\<close>. So the counter advances
  by \<open>skipCount + 1\<close> in an iteration that pushes and by \<open>skipCount\<close> in one that drops;
  after a stall of 100 ms that is 4 and 3.
\<close>

theorem pacer_catch_up:
  assumes "prod s = PTop" and "\<not> stopRecording s"
    and "now > nextFrameTime s + ms_to_ns frameInterval"
    and "(now - nextFrameTime s) div ms_to_ns frameInterval + 1 < 2 ^ 31"
  shows "\<exists>s'. iteration now got scaled s = Some s' \<and>
           nextFrameTime s' = nextFrameTime s +
             ms_to_ns frameInterval * ((now - nextFrameTime s) div ms_to_ns frameInterval + 1) \<and>
           frameCounter s' = frameCounter s + (now - nextFrameTime s) div ms_to_ns frameInterval +
             (if got \<and> freeFrames s \<noteq> [] \<and> 0 < scaled then 1 else 0) \<and>
           pushed s' = pushed s @
             (if got \<and> freeFrames s \<noteq> [] \<and> 0 < scaled
              then [\<lparr>frame = hd (freeFrames s),
                     pts = frameCounter s + (now - nextFrameTime s) div ms_to_ns frameInterval\<rparr>]
              else []) \<and>
           (now - nextFrameTime s = ms_to_ns 100 \<longrightarrow>
              frameCounter s' = frameCounter s +
                (if got \<and> freeFrames s \<noteq> [] \<and> 0 < scaled then 4 else 3))"
proof -
  let ?k = "(now - nextFrameTime s) div ms_to_ns frameInterval"
  define s1 where "s1 = pace now s"
  from assms(4) have fits: "?k < 2 ^ 31" by simp
  have k100: "now - nextFrameTime s = ms_to_ns 100 \<Longrightarrow> ?k = 3"
    by (simp add: ms_to_ns_def frameInterval_eq)
  have c1: "frameCounter s1 = frameCounter s + ?k"
    and n1: "nextFrameTime s1 = nextFrameTime s + ms_to_ns frameInterval * (?k + 1)"
    unfolding s1_def by (simp_all add: pace_behind [OF assms(3) fits])
  have o1: "pushed s1 = pushed s" "freeFrames s1 = freeFrames s" "prod s1 = PTop"
    unfolding s1_def using assms(1) by simp_all
  have o2: "cons s1 = cons s" "q s1 = q s"
    unfolding s1_def by simp_all
  consider (nogot) "\<not> got" | (empty) "got" "freeFrames s = []"
    | (frame) f rest where "got" "freeFrames s = f # rest"
    by (cases "freeFrames s") auto
  then show ?thesis
  proof cases
    case nogot
    then have "iteration now got scaled s = Some s1"
      using assms(1,2) o1(3) by (simp add: iteration_def s1_def [symmetric])
    with nogot c1 n1 o1 k100 show ?thesis by simp
  next
    case empty
    then have "iteration now got scaled s =
        Some (s1\<lparr>cerr := cerr s1 @ [''Pool empty, skipping frame'']\<rparr>)"
      using assms(1,2) o1
      by (simp add: iteration_def s1_def [symmetric] acquire_def)
    with empty c1 n1 o1 k100 show ?thesis by simp
  next
    case frame
    then have "iteration now got scaled s =
        step (P_finish scaled) (s1\<lparr>freeFrames := rest, prod := PHold f\<rparr>)"
      using assms(1,2) o1
      by (simp add: iteration_def s1_def [symmetric] acquire_def)
    with frame c1 n1 o1 k100 show ?thesis
      by (auto simp: pool_release_def release_def push_def Let_def)
  qed
qed

theorem pacer_catch_up_witness:
  "prod (init 50 0 0) = PTop \<and> \<not> stopRecording (init 50 0 0) \<and>
   ms_to_ns 100 > nextFrameTime (init 50 0 0) + ms_to_ns frameInterval \<and>
   (ms_to_ns 100 - nextFrameTime (init 50 0 0)) div ms_to_ns frameInterval + 1 < 2 ^ 31 \<and>
   iteration (ms_to_ns 100) True 720 (init 50 0 0) \<noteq> None \<and>
   frameCounter (the (iteration (ms_to_ns 100) True 720 (init 50 0 0))) = 4 \<and>
   nextFrameTime (the (iteration (ms_to_ns 100) True 720 (init 50 0 0))) = ms_to_ns 132 \<and>
   pushed (the (iteration (ms_to_ns 100) True 720 (init 50 0 0))) = [\<lparr>frame = 0, pts = 3\<rparr>]"
proof -
  have a: "prod (init 50 0 0) = PTop" "\<not> stopRecording (init 50 0 0)"
    "ms_to_ns 100 > nextFrameTime (init 50 0 0) + ms_to_ns frameInterval"
    "(ms_to_ns 100 - nextFrameTime (init 50 0 0)) div ms_to_ns frameInterval + 1 < 2 ^ 31"
    by (simp_all add: init_def ms_to_ns_def frameInterval_eq)
  have f: "freeFrames (init 50 0 0) \<noteq> []" "hd (freeFrames (init 50 0 0)) = 0"
    by (simp_all add: init_def FramePool_freeFrames_def upt_rec)
  have v: "nextFrameTime (init 50 0 0) = 0" "frameCounter (init 50 0 0) = 0"
    "pushed (init 50 0 0) = []"
    by (simp_all add: init_def)
  from pacer_catch_up [OF a, of True 720] obtain s' where
    "iteration (ms_to_ns 100) True 720 (init 50 0 0) = Some s'"
    "nextFrameTime s' = ms_to_ns 132" "frameCounter s' = 4" "pushed s' = [\<lparr>frame = 0, pts = 3\<rparr>]"
    by (auto simp: f v ms_to_ns_def frameInterval_eq)
  with a show ?thesis by simp
qed

text \<open>
  C1, as stated, fails: the iteration starts 100 ms after the deadline, so
  \<open>skipCount = 3\<close>, and \<open>AcquireNextFrame\<close> returns no frame: the counter advances by 3,
  not by \<open>skipCount + 1 = 4\<close>.
\<close>

theorem pacer_drop_counterexample:
  "prod (init 50 0 0) = PTop \<and> \<not> stopRecording (init 50 0 0) \<and>
   ms_to_ns 100 > nextFrameTime (init 50 0 0) + ms_to_ns frameInterval \<and>
   (ms_to_ns 100 - nextFrameTime (init 50 0 0)) div ms_to_ns frameInterval = 3 \<and>
   map_option frameCounter (iteration (ms_to_ns 100) False 720 (init 50 0 0)) =
     Some (frameCounter (init 50 0 0) + 3) \<and>
   map_option frameCounter (iteration (ms_to_ns 100) False 720 (init 50 0 0)) \<noteq>
     Some (frameCounter (init 50 0 0) + (3 + 1))"
  by (simp add: run_eval)


subsection \<open>Pushing after shutdown\<close>

text \<open>
  C5 (as amended): \<open>FrameQueue::push\<close> does not look at the stop flag: it appends the item
  and notifies the consumer, and the tail of an iteration that holds a frame pushes it
  whether or not \<open>stopRecording\<close> has been set in the meantime: the frame is at the back
  of the queue, the flag is as it was, a consumer blocked in \<open>cv.wait\<close> is back at its
  wait condition and a consumer elsewhere is where it was. The flag is honoured at the
  head of the loop: a producer that finds it set leaves the loop, and after that takes no
  step.
\<close>

theorem push_ignores_shutdown:
  "push item qu = qu @ [item] \<and>
   (prod s = PHold f \<and> 0 < scaled \<longrightarrow>
      (\<exists>s'. step (P_finish scaled) s = Some s' \<and>
            q s' = q s @ [\<lparr>frame = f, pts = frameCounter s\<rparr>] \<and>
            stopRecording s' = stopRecording s \<and>
            cons s' = notify_one (cons s) \<and>
            (cons s = CWait \<longrightarrow> cons s' = CPop) \<and>
            (cons s \<noteq> CWait \<longrightarrow> cons s' = cons s))) \<and>
   (prod s = PTop \<and> stopRecording s \<longrightarrow> step (P_begin now got) s = Some (s\<lparr>prod := PDone\<rparr>)) \<and>
   (prod s = PDone \<longrightarrow> step (P_begin now got) s = None \<and> step (P_finish scaled) s = None)"
  by (simp add: push_def Let_def notify_one_def)

theorem push_ignores_shutdown_witness:
  "run [C_test, C_pop, P_begin 0 True, Signal] (init 1 0 0) \<noteq> None \<and>
   prod (the (run [C_test, C_pop, P_begin 0 True, Signal] (init 1 0 0))) = PHold 0 \<and>
   stopRecording (the (run [C_test, C_pop, P_begin 0 True, Signal] (init 1 0 0))) \<and>
   cons (the (run [C_test, C_pop, P_begin 0 True, Signal] (init 1 0 0))) = CWait \<and>
   q (the (run [C_test, C_pop, P_begin 0 True, Signal] (init 1 0 0))) = [] \<and>
   frameCounter (the (run [C_test, C_pop, P_begin 0 True, Signal] (init 1 0 0))) = 0 \<and>
   (0::int) < 1 \<and>
   map_option q (step (P_finish 1)
     (the (run [C_test, C_pop, P_begin 0 True, Signal] (init 1 0 0)))) =
     Some [\<lparr>frame = 0, pts = 0\<rparr>] \<and>
   map_option stopRecording (step (P_finish 1)
     (the (run [C_test, C_pop, P_begin 0 True, Signal] (init 1 0 0)))) = Some True \<and>
   map_option cons (step (P_finish 1)
     (the (run [C_test, C_pop, P_begin 0 True, Signal] (init 1 0 0)))) = Some CPop"
proof -
  define s where "s = the (run [C_test, C_pop, P_begin 0 True, Signal] (init 1 0 0))"
  have r: "run [C_test, C_pop, P_begin 0 True, Signal] (init 1 0 0) = Some s"
    unfolding s_def by (simp add: run_eval upt_rec)
  have v: "prod s = PHold 0" "stopRecording s" "q s = []" "frameCounter s = 0" "cons s = CWait"
    unfolding s_def by (simp_all add: run_eval upt_rec)
  have "prod s = PHold 0 \<and> (0::int) < 1 \<longrightarrow>
      (\<exists>s'. step (P_finish 1) s = Some s' \<and>
            q s' = q s @ [\<lparr>frame = 0, pts = frameCounter s\<rparr>] \<and>
            stopRecording s' = stopRecording s \<and>
            (cons s = CWait \<longrightarrow> cons s' = CPop))"
    using push_ignores_shutdown [of undefined "[]" s 0 1 0 True] by blast
  with v obtain s' where "step (P_finish 1) s = Some s'" "q s' = [\<lparr>frame = 0, pts = 0\<rparr>]"
    "stopRecording s'" "cons s' = CPop"
    by auto
  with r v show ?thesis
    unfolding s_def [symmetric] by simp
qed

text \<open>
  C5, as stated, fails: the signal arrives while the producer holds a frame; the
  push that follows appends the frame to the queue.
\<close>

theorem push_after_shutdown_counterexample:
  "map_option stopRecording (run [P_begin 0 True, Signal] (init 1 0 0)) = Some True \<and>
   map_option q (run [P_begin 0 True, Signal] (init 1 0 0)) = Some [] \<and>
   map_option q (run [P_begin 0 True, Signal, P_finish 1] (init 1 0 0)) =
     Some [\<lparr>frame = 0, pts = 0\<rparr>]"
  by (simp add: run_eval upt_rec)

subsection \<open>Frames on the failure path of the consumer\<close>

text \<open>
  C2: the code at the failing input. The pool has one frame; it is acquired, pushed
  and popped, and \<open>avcodec_send_frame\<close> fails. The consumer leaves its loop by \<open>break\<close>
  without \<open>framePool.release\<close>: the frame is then neither free, nor queued, nor held by
  a thread, and stays so when the thread has finished. (By \<open>step_owned_eq\<close> every other
  step keeps all frames.)
\<close>

theorem send_failure_leaks_frame:
  "map_option owned (run [P_begin 0 True, P_finish 1, C_test, C_pop] (init 1 0 0)) = Some [0] \<and>
   map_option owned (run [P_begin 0 True, P_finish 1, C_test, C_pop, C_send False] (init 1 0 0)) =
     Some [] \<and>
   map_option owned (run [P_begin 0 True, P_finish 1, C_test, C_pop, C_send False,
     C_flush True] (init 1 0 0)) = Some [] \<and>
   map_option cons (run [P_begin 0 True, P_finish 1, C_test, C_pop, C_send False,
     C_flush True] (init 1 0 0)) = Some CDone \<and>
   map_option freeFrames (run [P_begin 0 True, P_finish 1, C_test, C_pop, C_send False,
     C_flush True] (init 1 0 0)) = Some []"
  by (simp add: run_eval owned_def upt_rec)

lemma only_signal_stops:
  assumes "step e s = Some s'" and "e \<noteq> Signal"
  shows "stopRecording s' = stopRecording s"
proof (cases e)
  case (P_begin now got)
  with assms show ?thesis
    by (cases "prod s"; cases "freeFrames s") (auto simp: acquire_def Let_def split: if_splits)
next
  case (P_finish scaled)
  with assms show ?thesis
    by (cases "prod s") (auto simp: pool_release_def Let_def split: if_splits)
next
  case C_pop
  with assms show ?thesis
    by (cases "cons s"; cases "q s") (auto simp: pop_def split: if_splits)
next
  case (C_recv wr)
  with assms show ?thesis
    by (cases "cons s")
       (auto simp: receive_and_write_def pool_release_def Let_def split: option.splits)
next
  case (C_flush wr)
  with assms show ?thesis
    by (cases "cons s") (auto simp: receive_and_write_def split: option.splits)
qed (use assms in \<open>auto split: consumer_pc.splits if_splits\<close>)

lemma write_result_ignored:
  "map_option cons (step (C_recv False) s) = map_option cons (step (C_recv True) s)"
  "map_option cerr (step (C_recv False) s) = map_option cerr (step (C_recv True) s)"
  "map_option stopRecording (step (C_recv False) s) = map_option stopRecording (step (C_recv True) s)"
  "map_option cons (step (C_flush False) s) = map_option cons (step (C_flush True) s)"
  "map_option cerr (step (C_flush False) s) = map_option cerr (step (C_flush True) s)"
  by (cases "cons s"; cases "ready (enc s)";
      simp add: receive_and_write_def avcodec_receive_packet_def pool_release_def Let_def)+

text \<open>
  C3: the code at the failing inputs. After a failed \<open>avcodec_send_frame\<close> the
  consumer logs and finishes, but \<open>stopRecording\<close> is still false and the producer goes on
  capturing and pushing frames that nobody pops. After a failed
  \<open>av_interleaved_write_frame\<close> nothing is logged, the packet is missing from the
  container, \<open>stopRecording\<close> is false and the consumer goes on to the next frame.
\<close>

theorem encode_failure_keeps_pipeline_running:
  "map_option cons (run [P_begin 0 True, P_finish 1, C_test, C_pop, C_send False,
     C_flush True] (init 50 0 0)) = Some CDone \<and>
   map_option stopRecording (run [P_begin 0 True, P_finish 1, C_test, C_pop, C_send False,
     C_flush True] (init 50 0 0)) = Some False \<and>
   map_option cerr (run [P_begin 0 True, P_finish 1, C_test, C_pop, C_send False,
     C_flush True] (init 50 0 0)) = Some [''Error sending frame to encoder''] \<and>
   map_option q (run [P_begin 0 True, P_finish 1, C_test, C_pop, C_send False, C_flush True,
     P_begin 33000000 True, P_finish 1] (init 50 0 0)) = Some [\<lparr>frame = 1, pts = 1\<rparr>] \<and>
   map_option prod (run [P_begin 0 True, P_finish 1, C_test, C_pop, C_send False, C_flush True,
     P_begin 33000000 True, P_finish 1] (init 50 0 0)) = Some PTop \<and>
   map_option outCtx (run [P_begin 0 True, P_finish 1, C_test, C_pop, C_send True,
     C_recv False, C_recv True, C_test] (init 50 0 0)) = Some [] \<and>
   map_option cerr (run [P_begin 0 True, P_finish 1, C_test, C_pop, C_send True,
     C_recv False, C_recv True, C_test] (init 50 0 0)) = Some [] \<and>
   map_option stopRecording (run [P_begin 0 True, P_finish 1, C_test, C_pop, C_send True,
     C_recv False, C_recv True, C_test] (init 50 0 0)) = Some False \<and>
   map_option cons (run [P_begin 0 True, P_finish 1, C_test, C_pop, C_send True,
     C_recv False, C_recv True, C_test] (init 50 0 0)) = Some CPop"
  by (simp add: run_eval upt_rec)

subsection \<open>The flush\<close>

lemma step_never_drains:
  assumes "step e s = Some s'" and "\<not> draining (enc s)"
  shows "\<not> draining (enc s')"
proof (cases e)
  case (P_begin now got)
  with assms show ?thesis
    by (cases "prod s"; cases "freeFrames s") (auto simp: acquire_def Let_def split: if_splits)
next
  case (P_finish scaled)
  with assms show ?thesis
    by (cases "prod s") (auto simp: pool_release_def Let_def split: if_splits)
next
  case C_pop
  with assms show ?thesis
    by (cases "cons s"; cases "q s") (auto simp: pop_def split: if_splits)
next
  case (C_send ok)
  with assms show ?thesis
    by (cases "cons s") (auto simp: avcodec_send_frame_def Let_def split: if_splits)
next
  case (C_recv wr)
  with assms show ?thesis
    by (cases "cons s"; cases "ready (enc s)")
       (auto simp: receive_and_write_def avcodec_receive_packet_def pool_release_def Let_def)
next
  case (C_flush wr)
  with assms show ?thesis
    by (cases "cons s"; cases "ready (enc s)")
       (auto simp: receive_and_write_def avcodec_receive_packet_def)
qed (use assms in \<open>auto split: consumer_pc.splits if_splits\<close>)

lemma never_drains:
  assumes "run es (init n t0 d) = Some s"
  shows "\<not> draining (enc s)"
proof -
  have "\<not> draining (enc (init n t0 d))"
    by (simp add: init_def)
  with assms show ?thesis
    by (rule run_invariant [where P = "\<lambda>s. \<not> draining (enc s)", rotated 1])
       (rule step_never_drains)
qed

text \<open>
  C4: the code at the failing input, an encoder with a lookahead of one frame. One
  frame is encoded, the recording is stopped, the consumer runs its flush loop and
  \<open>main\<close> writes the trailer: the encoder was never put into drain mode, the frame is
  still held inside the encoder and no packet has reached the container. Sending the null
  frame would have produced the packet.
\<close>

theorem flush_without_drain:
  "map_option trailer (run [P_begin 0 True, P_finish 1, C_test, C_pop, C_send True, C_recv True,
     Signal, P_begin 1 True, C_test, C_flush True, Join] (init 50 0 1)) = Some True \<and>
   map_option outCtx (run [P_begin 0 True, P_finish 1, C_test, C_pop, C_send True, C_recv True,
     Signal, P_begin 1 True, C_test, C_flush True, Join] (init 50 0 1)) = Some [] \<and>
   map_option (pending \<circ> enc) (run [P_begin 0 True, P_finish 1, C_test, C_pop, C_send True,
     C_recv True, Signal, P_begin 1 True, C_test, C_flush True, Join] (init 50 0 1)) = Some [0] \<and>
   map_option (draining \<circ> enc) (run [P_begin 0 True, P_finish 1, C_test, C_pop, C_send True,
     C_recv True, Signal, P_begin 1 True, C_test, C_flush True, Join] (init 50 0 1)) = Some False \<and>
   ready (avcodec_send_frame None \<lparr>delay = 1, pending = [0], ready = [], draining = False\<rparr>) = [0]"
  by (simp add: run_eval upt_rec)

subsection \<open>Shutdown and the waiting consumer\<close>

lemma signal_step:
  "step Signal s = Some s' \<Longrightarrow>
   stopRecording s' \<and> q s' = q s \<and> cons s' = cons s \<and> prod s' = prod s"
  by auto

lemma pop_after_shutdown:
  "pop True [] = (ReturnFalse, [])" "pop stop (item # rest) = (ReturnTrue item, rest)"
  "pop False [] = (Wait, [])"
  by (simp_all add: pop_def)

lemma blocked_consumer_stuck:
  assumes "cons s = CWait" and "prod s = PDone" and "e \<noteq> Signal" and "e \<noteq> Spurious"
  shows "step e s = None"
  using assms by (cases e) auto

text \<open>
  C6: the code at the failing input. The consumer finds the queue empty and blocks in
  \<open>cv.wait\<close>; the signal handler sets \<open>stopRecording\<close> and notifies nobody, so the
  consumer is still blocked; the producer sees the flag and leaves its loop. From then on
  no step of either thread is possible (only a spurious wake-up could release the
  consumer), and \<open>join\<close> does not return.
\<close>

theorem signal_does_not_wake:
  "map_option cons (run [C_test, C_pop] (init 50 0 0)) = Some CWait \<and>
   map_option cons (run [C_test, C_pop, Signal] (init 50 0 0)) = Some CWait \<and>
   map_option stopRecording (run [C_test, C_pop, Signal] (init 50 0 0)) = Some True \<and>
   map_option prod (run [C_test, C_pop, Signal, P_begin 0 False] (init 50 0 0)) = Some PDone \<and>
   map_option cons (run [C_test, C_pop, Signal, P_begin 0 False] (init 50 0 0)) = Some CWait \<and>
   run [C_test, C_pop, Signal, P_begin 0 False, P_begin 0 True] (init 50 0 0) = None \<and>
   run [C_test, C_pop, Signal, P_begin 0 False, P_finish 1] (init 50 0 0) = None \<and>
   run [C_test, C_pop, Signal, P_begin 0 False, C_test] (init 50 0 0) = None \<and>
   run [C_test, C_pop, Signal, P_begin 0 False, C_pop] (init 50 0 0) = None \<and>
   run [C_test, C_pop, Signal, P_begin 0 False, C_send True] (init 50 0 0) = None \<and>
   run [C_test, C_pop, Signal, P_begin 0 False, C_recv True] (init 50 0 0) = None \<and>
   run [C_test, C_pop, Signal, P_begin 0 False, C_flush True] (init 50 0 0) = None \<and>
   run [C_test, C_pop, Signal, P_begin 0 False, Join] (init 50 0 0) = None"
  by (simp add: run_eval)

subsection \<open>The frame interval\<close>

text \<open>
  C9: the code at the target rate of 30 Hz. \<open>1000 / targetFPS\<close> is an integer
  division: the frame interval is 33 ms, each deadline is 33 000 000 ns after the previous
  one, and 30 intervals are 990 ms, not one second.
\<close>

theorem frameInterval_truncated:
  "frameInterval_of 30 = 33 \<and> frameInterval = 33 \<and>
   nextFrameTime (pace 0 (init 50 0 0)) - nextFrameTime (init 50 0 0) = 33000000 \<and>
   targetFPS * (nextFrameTime (pace 0 (init 50 0 0)) - nextFrameTime (init 50 0 0)) = 990000000 \<and>
   targetFPS * (nextFrameTime (pace 0 (init 50 0 0)) - nextFrameTime (init 50 0 0)) \<noteq> 1000000000"
  by (simp add: run_eval frameInterval_of_def targetFPS_def)

subsection \<open>The WAV file\<close>

lemma rd32_le32: "rd32 (le32 w) = w"
proof (rule bit_word_eqI)
  fix n
  assume "n < LENGTH(32)"
  then consider "n < 8" | "8 \<le> n" "n < 16" | "16 \<le> n" "n < 24" | "24 \<le> n" "n < 32"
    by fastforce
  then show "bit (rd32 (le32 w)) n = bit w n"
  proof cases
    case 1
    then show ?thesis by (simp add: rd32_def le32_def bit_simps)
  next
    case 2
    then show ?thesis by (auto simp: rd32_def le32_def bit_simps)
  next
    case 3
    then show ?thesis by (auto simp: rd32_def le32_def bit_simps)
  next
    case 4
    then show ?thesis by (auto simp: rd32_def le32_def bit_simps)
  qed
qed

lemma rd16_le16: "rd16 (le16 w) = w"
proof (rule bit_word_eqI)
  fix n
  assume "n < LENGTH(16)"
  then consider "n < 8" | "8 \<le> n" "n < 16"
    by fastforce
  then show "bit (rd16 (le16 w)) n = bit w n"
  proof cases
    case 1
    then show ?thesis by (simp add: rd16_def le16_def bit_simps)
  next
    case 2
    then show ?thesis by (auto simp: rd16_def le16_def bit_simps)
  qed
qed

lemma length_header_bytes: "length (header_bytes (make_header c r b d)) = 44"
  by (simp add: header_bytes_def make_header_def le32_def le16_def)

lemma wav_file_content:
  "content (wav_file c r a) = header_bytes (make_header c r 16 (of_nat (length a))) @ a"
  by (simp add: wav_file_def WriteWAVHeader_def ofstream_write_def seekp_def Let_def
      length_header_bytes)


lemma header_fields:
  fixes h :: WAVHeader
  assumes "h = make_header c r b d"
  shows "chunkSize_field (header_bytes h @ a) = chunkSize h"
    and "numChannels_field (header_bytes h @ a) = numChannels h"
    and "sampleRate_field (header_bytes h @ a) = sampleRate h"
    and "byteRate_field (header_bytes h @ a) = byteRate h"
    and "blockAlign_field (header_bytes h @ a) = blockAlign h"
    and "bitsPerSample_field (header_bytes h @ a) = bitsPerSample h"
    and "dataSize_field (header_bytes h @ a) = dataSize h"
proof -
  have hb: "header_bytes h @ a =
      riff h @ le32 (chunkSize h) @ wave h @ fmt h @ le32 (subChunk1Size h) @
      le16 (audioFormat h) @ le16 (numChannels h) @ le32 (sampleRate h) @
      le32 (byteRate h) @ le16 (blockAlign h) @ le16 (bitsPerSample h) @
      data h @ le32 (dataSize h) @ a"
    by (simp add: header_bytes_def)
  have len: "length (riff h) = 4" "length (wave h) = 4" "length (fmt h) = 4" "length (data h) = 4"
    by (simp_all add: assms make_header_def)
  have l32: "length (le32 w) = 4" for w by (simp add: le32_def)
  have l16: "length (le16 w) = 2" for w by (simp add: le16_def)
  show "chunkSize_field (header_bytes h @ a) = chunkSize h"
    unfolding hb chunkSize_field_def field_def
    by (simp add: len l32 l16 rd32_le32)
  show "numChannels_field (header_bytes h @ a) = numChannels h"
    unfolding hb numChannels_field_def field_def
    by (simp add: len l32 l16 rd16_le16)
  show "sampleRate_field (header_bytes h @ a) = sampleRate h"
    unfolding hb sampleRate_field_def field_def
    by (simp add: len l32 l16 rd32_le32)
  show "byteRate_field (header_bytes h @ a) = byteRate h"
    unfolding hb byteRate_field_def field_def
    by (simp add: len l32 l16 rd32_le32)
  show "blockAlign_field (header_bytes h @ a) = blockAlign h"
    unfolding hb blockAlign_field_def field_def
    by (simp add: len l32 l16 rd16_le16)
  show "bitsPerSample_field (header_bytes h @ a) = bitsPerSample h"
    unfolding hb bitsPerSample_field_def field_def
    by (simp add: len l32 l16 rd16_le16)
  show "dataSize_field (header_bytes h @ a) = dataSize h"
    unfolding hb dataSize_field_def field_def
    by (simp add: len l32 l16 rd32_le32)
qed

lemma unat_ucast_16_32: "unat (ucast (c :: 16 word) :: 32 word) = unat c"
proof -
  have "unat c < 2 ^ 16"
    using unsigned_less [of c, where 'a = nat] by simp
  then have small: "unat c < 2 ^ 32"
    by simp
  have "unat (ucast c :: 32 word) = take_bit 32 (unat c)"
    by (simp add: unsigned_ucast_eq)
  also have "\<dots> = unat c"
    using small by (simp only: take_bit_nat_eq_self)
  finally show ?thesis .
qed

lemma byteRate_unat:
  fixes r :: "32 word" and c :: "16 word"
  shows "unat (byteRate (make_header c r 16 d)) = (unat r * unat c * 16) mod 2 ^ 32 div 8"
proof -
  have m1: "unat (r * ucast c) = unat r * unat c mod 2 ^ 32"
    by (simp only: unat_word_ariths(2) unat_ucast_16_32) simp
  have "unat (r * ucast c * 16) = unat (r * ucast c) * unat (16 :: 32 word) mod 2 ^ 32"
    by (simp only: unat_word_ariths(2)) simp
  also have "\<dots> = (unat r * unat c * 16) mod 2 ^ 32"
    by (simp only: m1) (simp add: mod_mult_left_eq)
  finally have m2: "unat (r * ucast c * 16) = (unat r * unat c * 16) mod 2 ^ 32" .
  have "unat (byteRate (make_header c r 16 d)) = unat ((r * ucast c * 16) div 8)"
    by (simp add: make_header_def)
  also have "\<dots> = unat (r * ucast c * 16) div unat (8 :: 32 word)"
    by (rule unat_div)
  finally show ?thesis
    by (simp only: m2) simp
qed

lemma blockAlign_unat:
  fixes c :: "16 word"
  shows "unat (blockAlign (make_header c r 16 d)) = (unat c * 16 div 8) mod 2 ^ 16"
proof -
  have "cdiv (uint c * 16) 8 = uint c * 2"
    by (simp add: cdiv_nonneg)
  then show ?thesis
    by (simp add: make_header_def unat_word_ariths word_of_int_uint mult.commute
        flip: mult_2_right)
qed

text \<open>
  C10 (as amended): the finished file is the 44-byte header followed by the payload. Its
  \<open>dataSize\<close> field is the number of payload bytes modulo \<open>2 ^ 32\<close>, its \<open>chunkSize\<close>
  field is \<open>dataSize + 36\<close> in 32-bit arithmetic, its \<open>byteRate\<close> field is
  \<open>sampleRate * numChannels * bitsPerSample\<close> modulo \<open>2 ^ 32\<close>, divided by 8, and its
  \<open>blockAlign\<close> field is \<open>numChannels * bitsPerSample / 8\<close> modulo \<open>2 ^ 16\<close>, with 16
  bits per sample. For a payload of less than \<open>2 ^ 32 - 36\<close> bytes \<open>dataSize\<close> is the
  exact number of payload bytes and \<open>chunkSize\<close> that number plus 36; \<open>byteRate\<close> and
  \<open>blockAlign\<close> are the exact values when the product fits 32 bits and there are fewer
  than \<open>2 ^ 15\<close> channels.
\<close>

theorem wav_header_fields:
  fixes nChannels :: "16 word" and rate :: "32 word" and audioData :: "byte list"
  shows
   "content (wav_file nChannels rate audioData) =
      header_bytes (make_header nChannels rate 16 (of_nat (length audioData))) @ audioData \<and>
    length (header_bytes (make_header nChannels rate 16 (of_nat (length audioData)))) = 44 \<and>
    unat (dataSize_field (content (wav_file nChannels rate audioData))) =
      length audioData mod 2 ^ 32 \<and>
    chunkSize_field (content (wav_file nChannels rate audioData)) =
      dataSize_field (content (wav_file nChannels rate audioData)) + 36 \<and>
    numChannels_field (content (wav_file nChannels rate audioData)) = nChannels \<and>
    sampleRate_field (content (wav_file nChannels rate audioData)) = rate \<and>
    bitsPerSample_field (content (wav_file nChannels rate audioData)) = 16 \<and>
    unat (byteRate_field (content (wav_file nChannels rate audioData))) =
      (unat rate * unat nChannels * 16) mod 2 ^ 32 div 8 \<and>
    unat (blockAlign_field (content (wav_file nChannels rate audioData))) =
      (unat nChannels * 16 div 8) mod 2 ^ 16 \<and>
    (length audioData < 2 ^ 32 - 36 \<longrightarrow>
       unat (dataSize_field (content (wav_file nChannels rate audioData))) = length audioData \<and>
       unat (chunkSize_field (content (wav_file nChannels rate audioData))) =
         length audioData + 36) \<and>
    (unat rate * unat nChannels * 16 < 2 ^ 32 \<longrightarrow>
       unat (byteRate_field (content (wav_file nChannels rate audioData))) =
         unat rate * unat nChannels * 16 div 8) \<and>
    (unat nChannels < 2 ^ 15 \<longrightarrow>
       unat (blockAlign_field (content (wav_file nChannels rate audioData))) =
         unat nChannels * 16 div 8)"
proof -
  define h where "h = make_header nChannels rate 16 (of_nat (length audioData))"
  note f = header_fields [OF h_def, of audioData]
  have c: "content (wav_file nChannels rate audioData) = header_bytes h @ audioData"
    by (simp add: wav_file_content h_def)
  have ds: "dataSize h = of_nat (length audioData)" and cs: "chunkSize h = dataSize h + 36"
    and nc: "numChannels h = nChannels" and sr: "sampleRate h = rate"
    and bp: "bitsPerSample h = 16"
    by (simp_all add: h_def make_header_def)
  have uds: "unat (dataSize h) = length audioData mod 2 ^ 32"
    by (simp add: ds unat_of_nat)
  have ucs: "unat (chunkSize h) = length audioData + 36" if "length audioData < 2 ^ 32 - 36"
  proof -
    have "unat (chunkSize h) = (length audioData + 36) mod 2 ^ 32"
      by (simp add: cs ds unat_word_ariths unat_of_nat mod_simps)
    with that show ?thesis by simp
  qed
  have ubr: "unat (byteRate h) = (unat rate * unat nChannels * 16) mod 2 ^ 32 div 8"
    unfolding h_def by (rule byteRate_unat)
  have uba: "unat (blockAlign h) = (unat nChannels * 16 div 8) mod 2 ^ 16"
    unfolding h_def by (rule blockAlign_unat)
  show ?thesis
    unfolding c f h_def [symmetric]
    using uds ucs ubr uba cs nc sr bp
    by (simp add: h_def length_header_bytes)
qed

theorem wav_header_fields_witness:
  "length (replicate 8 (0::byte)) < 2 ^ 32 - 36 \<and>
   unat (48000 :: 32 word) * unat (2 :: 16 word) * 16 < 2 ^ 32 \<and>
   unat (2 :: 16 word) < 2 ^ 15 \<and>
   unat (dataSize_field (content (wav_file 2 48000 (replicate 8 0)))) = 8 \<and>
   unat (chunkSize_field (content (wav_file 2 48000 (replicate 8 0)))) = 44 \<and>
   unat (byteRate_field (content (wav_file 2 48000 (replicate 8 0)))) = 192000 \<and>
   unat (blockAlign_field (content (wav_file 2 48000 (replicate 8 0)))) = 4"
proof -
  define wf where "wf = content (wav_file 2 48000 (replicate 8 0))"
  have a: "length (replicate 8 (0::byte)) < 2 ^ 32 - 36"
    "unat (48000 :: 32 word) * unat (2 :: 16 word) * 16 < 2 ^ 32"
    "unat (2 :: 16 word) < 2 ^ 15"
    by simp_all
  have "(length (replicate 8 (0::byte)) < 2 ^ 32 - 36 \<longrightarrow>
           unat (dataSize_field wf) = length (replicate 8 (0::byte)) \<and>
           unat (chunkSize_field wf) = length (replicate 8 (0::byte)) + 36) \<and>
        (unat (48000 :: 32 word) * unat (2 :: 16 word) * 16 < 2 ^ 32 \<longrightarrow>
           unat (byteRate_field wf) = unat (48000 :: 32 word) * unat (2 :: 16 word) * 16 div 8) \<and>
        (unat (2 :: 16 word) < 2 ^ 15 \<longrightarrow>
           unat (blockAlign_field wf) = unat (2 :: 16 word) * 16 div 8)"
    unfolding wf_def using wav_header_fields [of 2 48000 "replicate 8 0"] by blast
  with a have "unat (dataSize_field wf) = 8" "unat (chunkSize_field wf) = 44"
    "unat (byteRate_field wf) = 192000" "unat (blockAlign_field wf) = 4"
    by simp_all
  with a show ?thesis
    unfolding wf_def [symmetric] by blast
qed

text \<open>
  C10, as stated, fails: with a payload of \<open>2 ^ 32\<close> bytes the \<open>dataSize\<close> field is 0.
\<close>

theorem wav_dataSize_counterexample:
  "length (replicate 4294967296 (0::byte)) = 4294967296 \<and>
   unat (dataSize_field (content (wav_file 2 48000 (replicate 4294967296 0)))) = 0 \<and>
   unat (dataSize_field (content (wav_file 2 48000 (replicate 4294967296 0)))) \<noteq>
     length (replicate 4294967296 (0::byte))"
proof -
  define a :: "byte list" where "a = replicate 4294967296 0"
  have len: "length a = 4294967296"
    by (simp add: a_def)
  have "dataSize_field (content (wav_file 2 48000 a)) =
      dataSize (make_header 2 48000 16 (of_nat (length a)))"
    by (simp only: wav_file_content header_fields(7) [OF refl])
  also have "\<dots> = of_nat (length a)"
    by (simp add: make_header_def)
  also have "\<dots> = 0"
    by (simp only: len) simp
  finally have "unat (dataSize_field (content (wav_file 2 48000 a))) = 0"
    by simp
  with len show ?thesis
    unfolding a_def [symmetric] by simp
qed

end
